theory Spec2Isabelle
  imports Complex_Main "HOL-Library.Word" "HOL-Library.Signed_Division"
begin

section \<open>Go values used by window.go\<close>

text \<open>
  \<open>int64\<close> and \<open>time.Duration\<close> are 64-bit two's complement values: a \<open>64 word\<close> read
  with \<open>sint\<close> and compared with \<open><s\<close>; \<open>uint64\<close> is a \<open>64 word\<close> read with \<open>unat\<close>.
  Addition and subtraction wrap around, as Go's do. A \<open>time.Time\<close> is an instant,
  given as a number of nanoseconds.
\<close>

type_synonym int64 = "64 word"
type_synonym uint64 = "64 word"
type_synonym duration = "64 word"
type_synonym time = int

text \<open>
  \<open>time.Time.Sub\<close> of the Go standard library: the difference of two instants as a
  Duration, saturated at the largest and smallest Duration.
\<close>

definition Sub :: "time \<Rightarrow> time \<Rightarrow> duration" where
  "Sub t u =
     (let d = t - u
      in if d > 2 ^ 63 - 1 then word_of_int (2 ^ 63 - 1)
         else if d < - (2 ^ 63) then word_of_int (- (2 ^ 63))
         else word_of_int d)"

text \<open>Go's \<open>/\<close> on \<open>int64\<close> truncates towards zero; the caller checks the divisor first.\<close>

definition div64 :: "int64 \<Rightarrow> int64 \<Rightarrow> int64" where
  "div64 a b = word_of_int (sint a sdiv sint b)"

text \<open>
  The ways a call can end without a result. The two panics are the run-time panics of
  Go that \<open>newWindow\<close> and \<open>getLatestBucket\<close> can raise. \<open>InvalidConfiguration\<close> is the
  failure kind the specification names for construction; no path of window.go
  produces it.
\<close>

datatype fault = InvalidConfiguration | MakeSliceLenOutOfRange | IntegerDivideByZero

section \<open>bucket\<close>

record bucket =
  failure :: int64
  success :: int64

definition bucket_Reset :: "'a bucket_scheme \<Rightarrow> 'a bucket_scheme" where
  "bucket_Reset b = b\<lparr>failure := 0, success := 0\<rparr>"

definition bucket_Fail :: "'a bucket_scheme \<Rightarrow> 'a bucket_scheme" where
  "bucket_Fail b = b\<lparr>failure := failure b + 1\<rparr>"

definition bucket_Success :: "'a bucket_scheme \<Rightarrow> 'a bucket_scheme" where
  "bucket_Success b = b\<lparr>success := success b + 1\<rparr>"

section \<open>window\<close>

text \<open>
  The clock is the \<open>clock.Clock\<close> of github.com/facebookgo/clock, an object the window
  shares with its environment. Its state is the instant \<open>Now()\<close> returns; \<open>Add\<close> is the
  mock clock's method that moves it by a duration. The window record holds the clock
  itself, so that an \<open>Add\<close> of the environment is an update of that field.
  \<open>bucketLock\<close> has no counterpart: calls are taken one after the other.
\<close>

record Clock =
  Now :: time

definition Add :: "duration \<Rightarrow> Clock \<Rightarrow> Clock" where
  "Add d c = c\<lparr>Now := Now c + sint d\<rparr>"

record window =
  buckets :: "bucket list"
  bucketTime :: duration
  lastAccess :: time
  lastIdx :: uint64
  clock :: Clock

text \<open>
  \<open>newWindow\<close>: \<open>make\<close> panics on a negative length, the division panics on a zero
  divisor. The bucket count is a Go \<open>int\<close>, taken as 64 bits wide. Allocating a slice
  of a non-negative length is taken to succeed.
\<close>

definition newWindow :: "duration \<Rightarrow> int64 \<Rightarrow> Clock \<Rightarrow> fault + window" where
  "newWindow windowTime windowBuckets clk =
     (if windowBuckets <s 0 then Inl MakeSliceLenOutOfRange
      else if windowBuckets = 0 then Inl IntegerDivideByZero
      else Inr \<lparr>buckets = replicate (nat (sint windowBuckets)) \<lparr>failure = 0, success = 0\<rparr>,
                bucketTime = div64 windowTime windowBuckets,
                lastAccess = Now clk,
                lastIdx = 0,
                clock = clk\<rparr>)"

text \<open>
  The loop of \<open>getLatestBucket\<close>. The first argument is the number of iterations left
  (\<open>n - i\<close>); \<open>b\<close> is the bucket pointer, kept as an index into \<open>buckets\<close>.
\<close>

fun rotate :: "nat \<Rightarrow> window \<Rightarrow> duration \<Rightarrow> nat \<Rightarrow> window \<times> nat" where
  "rotate 0 w elapsed b = (w, b)"
| "rotate (Suc r) w elapsed b =
     (let n = length (buckets w);
          w1 = w\<lparr>lastIdx := lastIdx w + 1\<rparr>;
          b1 = unat (lastIdx w1 mod word_of_nat n);
          w2 = w1\<lparr>buckets := (buckets w1)[b1 := bucket_Reset (buckets w1 ! b1)]\<rparr>;
          elapsed1 = elapsed - bucketTime w2
      in if elapsed1 <s bucketTime w2 then (w2, b1) else rotate r w2 elapsed1 b1)"

text \<open>
  \<open>getLatestBucket\<close> returns the window as it leaves it and the index of the bucket it
  points to. With no bucket, \<open>w.lastIdx % uint64(n)\<close> panics. With buckets the index
  is a remainder modulo their number, so no access to the slice is out of range.
\<close>

definition getLatestBucket :: "window \<Rightarrow> fault + window \<times> nat" where
  "getLatestBucket w =
     (let n = length (buckets w)
      in if n = 0 then Inl IntegerDivideByZero
         else
           let b = unat (lastIdx w mod word_of_nat n);
               t = Now (clock w);
               elapsed = Sub t (lastAccess w)
           in if bucketTime w <s elapsed
              then (case rotate n w elapsed b of (w', b') \<Rightarrow> Inr (w'\<lparr>lastAccess := t\<rparr>, b'))
              else Inr (w, b))"

definition Fail :: "window \<Rightarrow> fault + window" where
  "Fail w =
     (case getLatestBucket w of
        Inl e \<Rightarrow> Inl e
      | Inr (w', b) \<Rightarrow> Inr (w'\<lparr>buckets := (buckets w')[b := bucket_Fail (buckets w' ! b)]\<rparr>))"

definition Success :: "window \<Rightarrow> fault + window" where
  "Success w =
     (case getLatestBucket w of
        Inl e \<Rightarrow> Inl e
      | Inr (w', b) \<Rightarrow> Inr (w'\<lparr>buckets := (buckets w')[b := bucket_Success (buckets w' ! b)]\<rparr>))"

definition Failures :: "window \<Rightarrow> int64" where
  "Failures w =
     fold (\<lambda>i failures. failures + failure (buckets w ! i)) [0..<length (buckets w)] 0"

definition Successes :: "window \<Rightarrow> int64" where
  "Successes w =
     fold (\<lambda>i successes. successes + success (buckets w ! i)) [0..<length (buckets w)] 0"

definition Total :: "window \<Rightarrow> int64" where
  "Total w =
     fold (\<lambda>i tot. tot + (success (buckets w ! i) + failure (buckets w ! i)))
       [0..<length (buckets w)] 0"

text \<open>
  \<open>ErrorRate\<close> returns a \<open>float64\<close>. The model returns the real number that the
  floating-point quotient \<open>float64(failures) / float64(total)\<close> rounds; the rounding
  itself is not modelled.
\<close>

definition ErrorRate :: "window \<Rightarrow> real" where
  "ErrorRate w =
     (case fold (\<lambda>i (tot, failures).
                   (tot + success (buckets w ! i), failures + failure (buckets w ! i)))
             [0..<length (buckets w)] (0, 0) of
        (tot, failures) \<Rightarrow>
          (let tot = tot + failures
           in if tot = 0 then 0
              else real_of_int (sint failures) / real_of_int (sint tot)))"

definition Reset :: "window \<Rightarrow> window" where
  "Reset w =
     w\<lparr>buckets := fold (\<lambda>i bs. bs[i := bucket_Reset (bs ! i)])
                    [0..<length (buckets w)] (buckets w)\<rparr>"

section \<open>Calls in sequence\<close>

text \<open>
  What a caller and its environment do to a window, one after the other: the three
  mutating methods and an advance of the shared clock. A panic ends the sequence.
\<close>

datatype op = OpFail | OpSuccess | OpReset | OpAdd duration

fun step :: "window \<Rightarrow> op \<Rightarrow> fault + window" where
  "step w OpFail = Fail w"
| "step w OpSuccess = Success w"
| "step w OpReset = Inr (Reset w)"
| "step w (OpAdd d) = Inr (w\<lparr>clock := Add d (clock w)\<rparr>)"

fun run :: "window \<Rightarrow> op list \<Rightarrow> fault + window" where
  "run w [] = Inr w"
| "run w (x # xs) = (case step w x of Inl e \<Rightarrow> Inl e | Inr w' \<Rightarrow> run w' xs)"

text \<open>A window from its construction on: \<open>newWindow\<close>, then the calls.\<close>

definition session :: "duration \<Rightarrow> int64 \<Rightarrow> Clock \<Rightarrow> op list \<Rightarrow> fault + window" where
  "session windowTime windowBuckets clk ops =
     (case newWindow windowTime windowBuckets clk of
        Inl e \<Rightarrow> Inl e
      | Inr w \<Rightarrow> run w ops)"

text \<open>
  The count \<open>TestWindowSlides\<close> takes over the ring: the number of buckets with
  \<open>b.failure > 0\<close>.
\<close>

definition failing_buckets :: "window \<Rightarrow> nat" where
  "failing_buckets w = length (filter (\<lambda>b. 0 <s failure b) (buckets w))"

section \<open>Notions the properties are stated with\<close>

text \<open>
  The calls of a sequence are recorded within one bucket interval when, at each
  \<open>Fail\<close> and \<open>Success\<close>, the time since \<open>lastAccess\<close> does not exceed \<open>bucketTime\<close>.
  The clock may advance between the calls.
\<close>

fun in_one_interval :: "window \<Rightarrow> op list \<Rightarrow> bool" where
  "in_one_interval w [] = True"
| "in_one_interval w (OpAdd d # xs) = in_one_interval (w\<lparr>clock := Add d (clock w)\<rparr>) xs"
| "in_one_interval w (OpReset # xs) = in_one_interval w xs"
| "in_one_interval w (OpFail # xs) =
     (Sub (Now (clock w)) (lastAccess w) \<le>s bucketTime w \<and> in_one_interval w xs)"
| "in_one_interval w (OpSuccess # xs) =
     (Sub (Now (clock w)) (lastAccess w) \<le>s bucketTime w \<and> in_one_interval w xs)"

text \<open>
  The number of iterations the loop of \<open>getLatestBucket\<close> makes, each of them one
  advance of the ring index and one reset: the recursion of \<open>rotate\<close> with only the
  elapsed time kept.
\<close>

fun rotate_count :: "nat \<Rightarrow> duration \<Rightarrow> duration \<Rightarrow> nat" where
  "rotate_count 0 bt elapsed = 0"
| "rotate_count (Suc r) bt elapsed =
     (if elapsed - bt <s bt then 1 else Suc (rotate_count r bt (elapsed - bt)))"

text \<open>The position in the ring that \<open>j\<close> advances of the index lead to.\<close>

definition ring_index :: "window \<Rightarrow> nat \<Rightarrow> nat" where
  "ring_index w j = unat ((lastIdx w + word_of_nat j) mod word_of_nat (length (buckets w)))"

text \<open>
  The specification's count of rotations for a ring of \<open>n\<close> buckets: one for each full
  \<open>bucketTime\<close> contained in the elapsed time, and never more than \<open>n\<close>. A
  \<open>bucketTime\<close> of zero is contained in a positive elapsed time without bound.
\<close>

definition full_bucket_times :: "nat \<Rightarrow> duration \<Rightarrow> duration \<Rightarrow> nat" where
  "full_bucket_times n bt elapsed =
     (if bt = 0 then n else min n (nat (sint elapsed div sint bt)))"

text \<open>
  The number of events the ring holds: the counters of all buckets, read as unsigned
  numbers, added up without wrap-around.
\<close>

definition recorded :: "window \<Rightarrow> nat" where
  "recorded w = sum_list (map (\<lambda>b. unat (failure b) + unat (success b)) (buckets w))"

section \<open>The saturating bucket of the specification\<close>

text \<open>
  Modelled from the spec: the bucket with a per-bucket failure cap. window_test.go
  constructs a window with a fourth argument, the cap, and reads a field \<open>limited\<close> of
  a bucket; window.go has neither, and its \<open>Fail\<close> has no bound. Section 3 of the
  specification gives the bucket a third counter, the limited-failure count.
\<close>

record capped_bucket = bucket +
  limited :: int64

text \<open>
  Modelled from the spec: \<open>FailLimited(cap)\<close> of section 4.1, which window.go does not
  have. It increments the failure counter only while its current value is below the
  cap; once the cap is reached, a failure event increments the limited-failure
  counter instead. With a cap of 0 it behaves as the unbounded \<open>Fail\<close>.
\<close>

definition FailLimited :: "int64 \<Rightarrow> capped_bucket \<Rightarrow> capped_bucket" where
  "FailLimited cap b =
     (if cap = 0 then bucket_Fail b
      else if failure b <s cap then b\<lparr>failure := failure b + 1\<rparr>
      else b\<lparr>limited := limited b + 1\<rparr>)"

section \<open>Loops over the ring as sums and maps\<close>

lemma fold_index_sum_take:
  fixes g :: "'a \<Rightarrow> 'b::comm_monoid_add"
  shows "k \<le> length bs \<Longrightarrow>
    fold (\<lambda>i acc. acc + g (bs ! i)) [0..<k] a = a + sum_list (map g (take k bs))"
  by (induction k) (simp_all add: take_Suc_conv_app_nth add.assoc)

lemma fold_index_sum:
  fixes g :: "'a \<Rightarrow> 'b::comm_monoid_add"
  shows "fold (\<lambda>i acc. acc + g (bs ! i)) [0..<length bs] a = a + sum_list (map g bs)"
  using fold_index_sum_take [of "length bs" bs g a] by simp

lemma fold_index_update_take:
  "k \<le> length bs \<Longrightarrow>
    fold (\<lambda>i xs. xs[i := f (xs ! i)]) [0..<k] bs = map f (take k bs) @ drop k bs"
proof (induction k)
  case 0
  then show ?case by simp
next
  case (Suc k)
  then have k: "k < length bs" by simp
  have "(map f (take k bs) @ drop k bs)[k := f ((map f (take k bs) @ drop k bs) ! k)]
        = map f (take (Suc k) bs) @ drop (Suc k) bs"
    using k by (simp add: list_update_append nth_append take_Suc_conv_app_nth
        Cons_nth_drop_Suc [symmetric])
  with Suc show ?case by simp
qed

lemma fold_index_update:
  "fold (\<lambda>i xs. xs[i := f (xs ! i)]) [0..<length bs] bs = map f bs"
  using fold_index_update_take [of "length bs" bs f] by simp

lemma fold_index_pair_take:
  fixes g h :: "'a \<Rightarrow> 'b::comm_monoid_add"
  shows "k \<le> length bs \<Longrightarrow>
    fold (\<lambda>i (x, y). (x + g (bs ! i), y + h (bs ! i))) [0..<k] (a, c)
      = (a + sum_list (map g (take k bs)), c + sum_list (map h (take k bs)))"
  by (induction k) (simp_all add: take_Suc_conv_app_nth add.assoc)

lemma sum_list_map_add:
  fixes f g :: "'a \<Rightarrow> 'b::comm_monoid_add"
  shows "sum_list (map (\<lambda>b. f b + g b) xs) = sum_list (map f xs) + sum_list (map g xs)"
  by (induction xs) (simp_all add: ac_simps)

lemma sum_list_map_zero: "sum_list (map (\<lambda>x. 0::int64) xs) = 0"
  by (induction xs) simp_all

lemma Failures_sum: "Failures w = sum_list (map failure (buckets w))"
  by (simp add: Failures_def fold_index_sum)

lemma Successes_sum: "Successes w = sum_list (map success (buckets w))"
  by (simp add: Successes_def fold_index_sum)

lemma Total_sum: "Total w = sum_list (map (\<lambda>b. success b + failure b) (buckets w))"
  using fold_index_sum [where g = "\<lambda>b. success b + failure b" and bs = "buckets w" and a = 0]
  by (simp add: Total_def)

lemma ErrorRate_sum:
  "ErrorRate w =
     (if Successes w + Failures w = 0 then 0
      else real_of_int (sint (Failures w)) / real_of_int (sint (Successes w + Failures w)))"
  using fold_index_pair_take [of "length (buckets w)" "buckets w" success failure 0 0]
  by (simp add: ErrorRate_def Failures_sum Successes_sum)

lemma bucket_Reset_zero: "bucket_Reset (b::bucket) = \<lparr>failure = 0, success = 0\<rparr>"
  by (cases b) (simp add: bucket_Reset_def)

lemma Reset_buckets: "buckets (Reset w) = map bucket_Reset (buckets w)"
  by (simp add: Reset_def fold_index_update)

section \<open>Construction\<close>

text \<open>
  C2, as stated, fails: constructing a window of 10 ms with a bucket count of 0 ends in
  the run-time panic of the division, integer divide by zero, and not in an
  InvalidConfiguration failure.
\<close>

theorem newWindow_zero_buckets_panics:
  "newWindow 10000000 0 \<lparr>Now = 0\<rparr> = Inl IntegerDivideByZero
   \<and> newWindow 10000000 0 \<lparr>Now = 0\<rparr> \<noteq> Inl InvalidConfiguration"
  by (simp add: newWindow_def)

text \<open>
  C2, amended: constructing a window with a non-positive bucket count fails at
  construction time, by a run-time panic of \<open>newWindow\<close> itself: integer divide by zero
  for a count of 0, makeslice: len out of range for a negative count. It is never an
  InvalidConfiguration failure, and no window is returned for a later call to fault on.
\<close>

theorem newWindow_nonpositive:
  "windowBuckets \<le>s 0 \<Longrightarrow>
   newWindow windowTime windowBuckets clk =
     Inl (if windowBuckets = 0 then IntegerDivideByZero else MakeSliceLenOutOfRange)
   \<and> newWindow windowTime windowBuckets clk \<noteq> Inl InvalidConfiguration"
  by (auto simp add: newWindow_def word_sle_eq word_sless_alt signed_eq_0_iff)

theorem newWindow_nonpositive_witness:
  "(- 3 :: int64) \<le>s 0
   \<and> newWindow 10000000 (- 3) \<lparr>Now = 0\<rparr> = Inl MakeSliceLenOutOfRange"
  using newWindow_nonpositive [of "- 3" 10000000 "\<lparr>Now = 0\<rparr>"]
  by (simp add: word_sle_eq)

section \<open>Reset\<close>

text \<open>
  C7: after \<open>Reset\<close>, whatever the window was, \<open>Failures\<close>, \<open>Successes\<close> and \<open>Total\<close>
  all return 0.
\<close>

theorem Reset_counts_zero:
  "Failures (Reset w) = 0 \<and> Successes (Reset w) = 0 \<and> Total (Reset w) = 0"
  by (simp add: Failures_sum Successes_sum Total_sum Reset_buckets bucket_Reset_zero
      comp_def sum_list_map_zero)

text \<open>
  C8: \<open>Reset\<close> zeroes every bucket of the ring, keeps the number of buckets, and leaves
  \<open>lastIdx\<close>, \<open>lastAccess\<close>, \<open>bucketTime\<close> and the clock as they were.
\<close>

theorem Reset_frame:
  "buckets (Reset w) = replicate (length (buckets w)) \<lparr>failure = 0, success = 0\<rparr>
   \<and> lastIdx (Reset w) = lastIdx w
   \<and> lastAccess (Reset w) = lastAccess w
   \<and> bucketTime (Reset w) = bucketTime w
   \<and> clock (Reset w) = clock w"
proof -
  have "map bucket_Reset bs = replicate (length bs) \<lparr>failure = 0, success = 0\<rparr>"
    for bs :: "bucket list"
    by (induction bs) (simp_all add: bucket_Reset_zero)
  then have "buckets (Reset w) = replicate (length (buckets w)) \<lparr>failure = 0, success = 0\<rparr>"
    by (simp add: Reset_buckets)
  then show ?thesis by (simp add: Reset_def)
qed

section \<open>Aggregates\<close>

text \<open>
  C10: in every window, so in every one a sequence of calls reaches, \<open>Total\<close> is
  \<open>Failures\<close> plus \<open>Successes\<close>, in the arithmetic of \<open>int64\<close>.
\<close>

theorem Total_eq_Failures_plus_Successes: "Total w = Failures w + Successes w"
  by (simp add: Total_sum Failures_sum Successes_sum sum_list_map_add add.commute)

section \<open>Sliding\<close>

text \<open>
  C6: a window of 10 ms in 2 buckets of 5 ms; one failure, the clock moved by 6 ms, a
  second failure. Exactly 2 buckets then hold a failure count above zero.
\<close>

theorem slide_two_buckets:
  "map_sum id failing_buckets
     (session 10000000 2 \<lparr>Now = 0\<rparr> [OpFail, OpAdd 6000000, OpFail]) = Inr 2"
  by code_simp

section \<open>The rotation loop\<close>

lemma unat_mod_of_nat:
  "n < 2 ^ 64 \<Longrightarrow> unat ((x::uint64) mod word_of_nat n) = unat x mod n"
  by (simp add: unat_mod unat_of_nat)

lemma ring_index_less:
  "0 < length (buckets w) \<Longrightarrow> length (buckets w) < 2 ^ 64 \<Longrightarrow>
   ring_index w j < length (buckets w)"
  by (simp add: ring_index_def unat_mod_of_nat)

lemma ring_index_step:
  "ring_index (w\<lparr>lastIdx := lastIdx w + 1, buckets := bs\<rparr>) j
   = unat ((lastIdx w + word_of_nat (Suc j)) mod word_of_nat (length bs))"
  by (simp add: ring_index_def ac_simps)

lemma rotate_fields:
  "rotate r w e b = (w', b') \<Longrightarrow>
   bucketTime w' = bucketTime w \<and> lastAccess w' = lastAccess w \<and> clock w' = clock w
   \<and> length (buckets w') = length (buckets w)
   \<and> lastIdx w' = lastIdx w + word_of_nat (rotate_count r (bucketTime w) e)"
proof (induction r arbitrary: w e b)
  case 0
  then show ?case by simp
next
  case (Suc r)
  show ?case
  proof (cases "e - bucketTime w <s bucketTime w")
    case True
    with Suc.prems show ?thesis by (auto simp add: Let_def)
  next
    case False
    let ?b1 = "unat ((lastIdx w + 1) mod word_of_nat (length (buckets w)))"
    let ?w2 = "w\<lparr>lastIdx := lastIdx w + 1,
                 buckets := (buckets w)[?b1 := bucket_Reset (buckets w ! ?b1)]\<rparr>"
    from Suc.prems False have "rotate r ?w2 (e - bucketTime w) ?b1 = (w', b')"
      by (simp add: Let_def)
    from Suc.IH [OF this] False show ?thesis
      by (simp add: add.assoc)
  qed
qed

lemma rotate_pointer:
  "rotate r w e b = (w', b') \<Longrightarrow>
   b' = (if r = 0 then b else ring_index w (rotate_count r (bucketTime w) e))"
proof (induction r arbitrary: w e b)
  case 0
  then show ?case by simp
next
  case (Suc r)
  let ?b1 = "unat ((lastIdx w + 1) mod word_of_nat (length (buckets w)))"
  let ?w2 = "w\<lparr>lastIdx := lastIdx w + 1,
               buckets := (buckets w)[?b1 := bucket_Reset (buckets w ! ?b1)]\<rparr>"
  show ?case
  proof (cases "e - bucketTime w <s bucketTime w")
    case True
    with Suc.prems show ?thesis by (auto simp add: Let_def ring_index_def)
  next
    case False
    from Suc.prems False have run: "rotate r ?w2 (e - bucketTime w) ?b1 = (w', b')"
      by (simp add: Let_def)
    show ?thesis
    proof (cases r)
      case 0
      with run False show ?thesis by (simp add: ring_index_def)
    next
      case (Suc r')
      with Suc.IH [OF run] False show ?thesis
        by (simp add: ring_index_step) (simp add: ring_index_def)
    qed
  qed
qed

lemma rotate_unfold:
  "rotate (Suc r) w e b =
     (let b1 = ring_index w 1;
          w2 = w\<lparr>lastIdx := lastIdx w + 1,
                 buckets := (buckets w)[b1 := bucket_Reset (buckets w ! b1)]\<rparr>
      in if e - bucketTime w <s bucketTime w then (w2, b1)
         else rotate r w2 (e - bucketTime w) b1)"
  by (simp add: Let_def ring_index_def)

lemma rotate_buckets:
  "rotate r w e b = (w', b') \<Longrightarrow> i < length (buckets w) \<Longrightarrow>
   buckets w' ! i =
     (if i \<in> ring_index w ` {1..rotate_count r (bucketTime w) e}
      then bucket_Reset (buckets w ! i) else buckets w ! i)"
proof (induction r arbitrary: w e b)
  case 0
  then show ?case by simp
next
  case (Suc r)
  define b1 where "b1 = ring_index w 1"
  define w2 where "w2 = w\<lparr>lastIdx := lastIdx w + 1,
               buckets := (buckets w)[b1 := bucket_Reset (buckets w ! b1)]\<rparr>"
  have nth2: "buckets w2 ! i = (if i = b1 then bucket_Reset (buckets w ! i) else buckets w ! i)"
    using Suc.prems(2) by (simp add: w2_def nth_list_update)
  have len2: "i < length (buckets w2)" using Suc.prems(2) by (simp add: w2_def)
  have bt2: "bucketTime w2 = bucketTime w" by (simp add: w2_def)
  have idem: "bucket_Reset (bucket_Reset x) = bucket_Reset x" for x :: bucket
    by (simp add: bucket_Reset_def)
  show ?case
  proof (cases "e - bucketTime w <s bucketTime w")
    case True
    with Suc.prems(1) have "w' = w2"
      by (auto simp add: rotate_unfold Let_def w2_def b1_def simp del: rotate.simps)
    moreover have "rotate_count (Suc r) (bucketTime w) e = 1" using True by simp
    ultimately show ?thesis using nth2 by (simp add: b1_def)
  next
    case False
    define k where "k = rotate_count r (bucketTime w) (e - bucketTime w)"
    from Suc.prems(1) False have run: "rotate r w2 (e - bucketTime w) b1 = (w', b')"
      by (simp add: rotate_unfold Let_def w2_def b1_def del: rotate.simps)
    have shift: "ring_index w2 j = ring_index w (Suc j)" for j
      by (simp add: w2_def ring_index_def ac_simps)
    have "ring_index w2 ` {1..k} = (\<lambda>j. ring_index w (Suc j)) ` {1..k}"
      using shift by presburger
    also have "\<dots> = ring_index w ` (Suc ` {1..k})"
      by (simp only: image_image)
    also have "Suc ` {1..k} = {2..Suc k}"
      unfolding image_Suc_atLeastAtMost by (simp add: numeral_2_eq_2)
    finally have img: "ring_index w2 ` {1..k} = ring_index w ` {2..Suc k}" .
    have split: "{1..Suc k} = insert 1 {2..Suc k}" by auto
    have mem: "(i \<in> ring_index w ` {1..Suc k}) = (i = b1 \<or> i \<in> ring_index w ` {2..Suc k})"
      unfolding split b1_def by blast
    have cnt: "rotate_count (Suc r) (bucketTime w) e = Suc k"
      using False by (simp add: k_def)
    have ih: "buckets w' ! i =
      (if i \<in> ring_index w ` {2..Suc k} then bucket_Reset (buckets w2 ! i) else buckets w2 ! i)"
      using Suc.IH [OF run len2] by (simp only: bt2 k_def [symmetric] img)
    show ?thesis
      unfolding cnt mem using ih nth2 by (auto simp add: idem)
  qed
qed


lemma sint_sub_nonneg:
  fixes e b :: duration
  assumes "0 \<le> sint b" "sint b \<le> sint e"
  shows "sint (e - b) = sint e - sint b"
proof -
  have "sint e < 2 ^ 63" using sint_lt [of e] by simp
  with assms have "- (2 ^ 63) \<le> sint e - sint b" "sint e - sint b < 2 ^ 63" by simp_all
  then have "signed_take_bit 63 (sint e - sint b) = sint e - sint b"
    by (rule signed_take_bit_int_eq_self)
  then show ?thesis by (simp add: sint_word_ariths)
qed

lemma rotate_count_zero_bucketTime:
  "0 \<le> sint e \<Longrightarrow> rotate_count r 0 e = r"
  by (induction r) (simp_all add: word_sless_alt)

lemma rotate_count_div:
  "0 < sint bt \<Longrightarrow> sint bt \<le> sint e \<Longrightarrow>
   rotate_count r bt e = min r (nat (sint e div sint bt))"
proof (induction r arbitrary: e)
  case 0
  then show ?case by simp
next
  case (Suc r)
  have sub: "sint (e - bt) = sint e - sint bt"
    using Suc.prems by (simp add: sint_sub_nonneg)
  have step: "sint e div sint bt = (sint e - sint bt) div sint bt + 1"
    using Suc.prems(1) div_add_self2 [of "sint bt" "sint e - sint bt"] by simp
  show ?case
  proof (cases "e - bt <s bt")
    case True
    then have "sint e - sint bt < sint bt" by (simp add: word_sless_alt sub)
    with Suc.prems have "(sint e - sint bt) div sint bt = 0"
      by (simp add: div_pos_pos_trivial)
    with step True show ?thesis by simp
  next
    case False
    then have ge: "sint bt \<le> sint (e - bt)" by (simp add: word_sless_alt)
    then have "0 < (sint e - sint bt) div sint bt"
      using Suc.prems(1) pos_imp_zdiv_pos_iff [of "sint bt" "sint e - sint bt"]
      by (simp add: sub)
    with Suc.IH [OF Suc.prems(1) ge] False step show ?thesis
      by (simp add: sub nat_add_distrib)
  qed
qed


lemma rotate_count_bounds: "rotate_count r bt e \<le> r \<and> (0 < r \<longrightarrow> 0 < rotate_count r bt e)"
  by (induction r arbitrary: e) auto

lemma getLatestBucket_stay:
  "0 < length (buckets w) \<Longrightarrow> \<not> bucketTime w <s Sub (Now (clock w)) (lastAccess w) \<Longrightarrow>
   getLatestBucket w = Inr (w, ring_index w 0)"
  by (simp add: getLatestBucket_def ring_index_def)

lemma getLatestBucket_rotate:
  assumes n: "0 < length (buckets w)"
    and late: "bucketTime w <s Sub (Now (clock w)) (lastAccess w)"
    and k: "k = rotate_count (length (buckets w)) (bucketTime w) (Sub (Now (clock w)) (lastAccess w))"
  shows "\<exists>w'. getLatestBucket w = Inr (w', ring_index w k)
           \<and> lastIdx w' = lastIdx w + word_of_nat k
           \<and> lastAccess w' = Now (clock w)
           \<and> bucketTime w' = bucketTime w
           \<and> clock w' = clock w
           \<and> length (buckets w') = length (buckets w)
           \<and> (\<forall>i < length (buckets w). buckets w' ! i =
                 (if i \<in> ring_index w ` {1..k} then \<lparr>failure = 0, success = 0\<rparr>
                  else buckets w ! i))"
proof -
  define e where "e = Sub (Now (clock w)) (lastAccess w)"
  define b where "b = unat (lastIdx w mod word_of_nat (length (buckets w)))"
  obtain w1 b1 where r: "rotate (length (buckets w)) w e b = (w1, b1)"
    by (cases "rotate (length (buckets w)) w e b")
  have g: "getLatestBucket w = Inr (w1\<lparr>lastAccess := Now (clock w)\<rparr>, b1)"
    using n late r by (simp add: getLatestBucket_def e_def b_def)
  have b1: "b1 = ring_index w k"
    using rotate_pointer [OF r] n k by (simp add: e_def)
  have f: "bucketTime w1 = bucketTime w \<and> lastAccess w1 = lastAccess w \<and> clock w1 = clock w
     \<and> length (buckets w1) = length (buckets w)
     \<and> lastIdx w1 = lastIdx w + word_of_nat k"
    using rotate_fields [OF r] k by (simp add: e_def)
  have bs: "buckets w1 ! i =
      (if i \<in> ring_index w ` {1..k} then \<lparr>failure = 0, success = 0\<rparr> else buckets w ! i)"
    if "i < length (buckets w)" for i
    using rotate_buckets [OF r that] k by (simp add: e_def bucket_Reset_zero)
  show ?thesis
    using g b1 f bs by simp
qed

section \<open>The ring and the number of rotations\<close>

lemma ring_cover_nat:
  fixes a n :: nat
  assumes "0 < n"
  shows "(\<lambda>j. (a + j) mod n) ` {1..n} = {0..<n}"
proof (rule card_subset_eq)
  show "finite {0..<n}" by simp
  show "(\<lambda>j. (a + j) mod n) ` {1..n} \<subseteq> {0..<n}" using assms by auto
  have "inj_on (\<lambda>j. (a + j) mod n) {1..n}"
  proof (rule inj_onI)
    fix x y assume x: "x \<in> {1..n}" and y: "y \<in> {1..n}"
      and eq: "(a + x) mod n = (a + y) mod n"
    have *: "u = v" if "u \<le> v" "u \<in> {1..n}" "v \<in> {1..n}" "(a + u) mod n = (a + v) mod n"
      for u v
    proof -
      have "n dvd (a + v) - (a + u)"
        using mod_eq_dvd_iff_nat [of "a + u" "a + v" n] that by simp
      then have "n dvd v - u" by simp
      moreover have "v - u < n" using that by auto
      ultimately have "v - u = 0" by (metis dvd_imp_le not_less zero_less_iff_neq_zero)
      with that show ?thesis by simp
    qed
    show "x = y"
    proof (cases "x \<le> y")
      case True
      then show ?thesis using x y eq by (rule *)
    next
      case False
      then have "y \<le> x" by simp
      from this y x eq [symmetric] have "y = x" by (rule *)
      then show ?thesis by simp
    qed
  qed
  then show "card ((\<lambda>j. (a + j) mod n) ` {1..n}) = card {0..<n}"
    by (simp add: card_image)
qed

lemma ring_index_no_wrap:
  assumes "0 < length (buckets w)" "unat (lastIdx w) + length (buckets w) < 2 ^ 64"
    and "j \<le> length (buckets w)"
  shows "ring_index w j = (unat (lastIdx w) + j) mod length (buckets w)"
proof -
  have j: "j < 2 ^ 64" using assms by simp
  then have uj: "unat (word_of_nat j :: uint64) = j"
    by (simp add: unat_of_nat)
  have "unat (lastIdx w) + unat (word_of_nat j :: uint64) < 2 ^ LENGTH(64)"
    using assms uj by simp
  then have "unat (lastIdx w + word_of_nat j) = unat (lastIdx w) + j"
    using uj by (simp add: unat_add_lem [THEN iffD1])
  moreover have "length (buckets w) < 2 ^ 64" using assms by simp
  ultimately show ?thesis
    by (simp add: ring_index_def unat_mod_of_nat)
qed

lemma ring_index_cover:
  assumes "0 < length (buckets w)" "unat (lastIdx w) + length (buckets w) < 2 ^ 64"
  shows "ring_index w ` {1..length (buckets w)} = {0..<length (buckets w)}"
proof -
  have "ring_index w ` {1..length (buckets w)}
        = (\<lambda>j. (unat (lastIdx w) + j) mod length (buckets w)) ` {1..length (buckets w)}"
    by (rule image_cong) (simp_all add: ring_index_no_wrap [OF assms])
  with ring_cover_nat [OF assms(1)] show ?thesis by simp
qed

lemma full_bucket_times_eq_rotate_count:
  assumes "0 \<le> sint bt" "sint bt < sint e"
  shows "full_bucket_times n bt e = rotate_count n bt e"
proof (cases "bt = 0")
  case True
  with assms show ?thesis
    by (simp add: full_bucket_times_def rotate_count_zero_bucketTime)
next
  case False
  then have "sint bt \<noteq> 0" by (simp add: signed_eq_0_iff)
  with assms have "0 < sint bt" by simp
  with assms False show ?thesis
    by (simp add: full_bucket_times_def rotate_count_div)
qed

lemma full_bucket_times_remaining:
  assumes "0 \<le> sint bt" "sint bt < sint e" "full_bucket_times n bt e < n"
  shows "sint e - int (full_bucket_times n bt e) * sint bt < sint bt"
proof -
  from assms(3) have nz: "bt \<noteq> 0" by (auto simp add: full_bucket_times_def)
  then have "sint bt \<noteq> 0" by (simp add: signed_eq_0_iff)
  with assms have pos: "0 < sint bt" by simp
  from assms(3) nz have k: "full_bucket_times n bt e = nat (sint e div sint bt)"
    by (auto simp add: full_bucket_times_def min_def split: if_splits)
  have "0 \<le> sint e div sint bt" using pos assms by (simp add: pos_imp_zdiv_nonneg_iff)
  then have "int (full_bucket_times n bt e) = sint e div sint bt" by (simp add: k)
  moreover have "sint e - (sint e div sint bt) * sint bt = sint e mod sint bt"
    by (simp add: minus_div_mult_eq_mod)
  moreover have "sint e mod sint bt < sint bt" using pos by simp
  ultimately show ?thesis by simp
qed

lemma full_bucket_times_whole_window:
  assumes "0 \<le> sint bt" "int n * sint bt < sint e"
  shows "full_bucket_times n bt e = n"
proof (cases "bt = 0")
  case True
  then show ?thesis by (simp add: full_bucket_times_def)
next
  case False
  then have "sint bt \<noteq> 0" by (simp add: signed_eq_0_iff)
  with assms have pos: "0 < sint bt" by simp
  have "int n * sint bt \<le> sint e" using assms by simp
  then have "(int n * sint bt) div sint bt \<le> sint e div sint bt"
    using pos by (rule zdiv_mono1)
  then have "int n \<le> sint e div sint bt"
    using pos by simp
  then have "n \<le> nat (sint e div sint bt)" by simp
  with False show ?thesis by (simp add: full_bucket_times_def)
qed

section \<open>Rotation\<close>

text \<open>
  C3: the rotation step \<open>getLatestBucket\<close>, for a ring of \<open>n\<close> buckets. With
  \<open>elapsed \<le> bucketTime\<close> the window, its index and its buckets are unchanged.
  Otherwise, for a \<open>bucketTime\<close> that is not negative, the index advances \<open>k\<close> times,
  \<open>k\<close> the number of full bucket times in \<open>elapsed\<close> and between 1 and \<open>n\<close>; the buckets at the
  \<open>k\<close> positions passed are reset and no other changes; the walk stops with less than
  one \<open>bucketTime\<close> left when \<open>k < n\<close>; \<open>lastAccess\<close> becomes the clock's time. A gap
  larger than the whole window, \<open>n\<close> bucket times, gives \<open>k = n\<close>, and these \<open>n\<close>
  positions are the whole ring as long as \<open>lastIdx\<close> does not pass \<open>2 ^ 64\<close> on the way.
\<close>

theorem getLatestBucket_rotation:
  assumes n: "n = length (buckets w)" "0 < n"
    and bt: "bt = bucketTime w"
    and e: "e = Sub (Now (clock w)) (lastAccess w)"
    and k: "k = full_bucket_times n bt e"
  shows "(e \<le>s bt \<longrightarrow> getLatestBucket w = Inr (w, ring_index w 0))
    \<and> (bt <s e \<and> 0 \<le>s bt \<longrightarrow>
         1 \<le> k \<and> k \<le> n
         \<and> (k < n \<longrightarrow> sint e - int k * sint bt < sint bt)
         \<and> (int n * sint bt < sint e \<longrightarrow> k = n)
         \<and> (\<exists>w'. getLatestBucket w = Inr (w', ring_index w k)
                \<and> lastIdx w' = lastIdx w + word_of_nat k
                \<and> lastAccess w' = Now (clock w)
                \<and> bucketTime w' = bt
                \<and> clock w' = clock w
                \<and> length (buckets w') = n
                \<and> (\<forall>i<n. buckets w' ! i =
                      (if i \<in> ring_index w ` {1..k} then \<lparr>failure = 0, success = 0\<rparr>
                       else buckets w ! i)))
         \<and> (k = n \<and> unat (lastIdx w) + n < 2 ^ 64 \<longrightarrow> ring_index w ` {1..k} = {0..<n}))"
proof (intro conjI impI)
  assume "e \<le>s bt"
  then have "\<not> bucketTime w <s Sub (Now (clock w)) (lastAccess w)"
    using bt e by (simp add: word_sle_eq word_sless_alt)
  with n show "getLatestBucket w = Inr (w, ring_index w 0)"
    by (simp add: getLatestBucket_stay)
next
  assume "bt <s e \<and> 0 \<le>s bt"
  then have late: "bt <s e" and nonneg: "0 \<le> sint bt"
    by (simp_all add: word_sle_eq)
  have lt: "sint bt < sint e" using late by (simp add: word_sless_alt)
  have kc: "k = rotate_count n bt e"
    using k full_bucket_times_eq_rotate_count [OF nonneg lt] by simp
  show "1 \<le> k" using rotate_count_bounds [of n bt e] n kc by simp
  show "k \<le> n" using rotate_count_bounds [of n bt e] kc by simp
  show "\<exists>w'. getLatestBucket w = Inr (w', ring_index w k)
                \<and> lastIdx w' = lastIdx w + word_of_nat k
                \<and> lastAccess w' = Now (clock w)
                \<and> bucketTime w' = bt
                \<and> clock w' = clock w
                \<and> length (buckets w') = n
                \<and> (\<forall>i<n. buckets w' ! i =
                      (if i \<in> ring_index w ` {1..k} then \<lparr>failure = 0, success = 0\<rparr>
                       else buckets w ! i))"
    using getLatestBucket_rotate [of w k] n bt e late kc by simp
  {
    assume "k < n"
    then show "sint e - int k * sint bt < sint bt"
      using full_bucket_times_remaining [OF nonneg lt, of n] k by simp
  }
  {
    assume "int n * sint bt < sint e"
    then show "k = n"
      using full_bucket_times_whole_window [OF nonneg] k by simp
  }
  {
    assume "k = n \<and> unat (lastIdx w) + n < 2 ^ 64"
    then show "ring_index w ` {1..k} = {0..<n}"
      using ring_index_cover [of w] n by simp
  }
qed

theorem getLatestBucket_rotation_witness:
  "(0::nat) < 3 \<and> (0::duration) \<le>s 5 \<and> (5::duration) <s Sub 12 0
   \<and> full_bucket_times 3 5 (Sub 12 0) = 2
   \<and> (\<exists>w'. getLatestBucket
          \<lparr>buckets = [\<lparr>failure = 1, success = 0\<rparr>, \<lparr>failure = 2, success = 0\<rparr>,
                      \<lparr>failure = 3, success = 1\<rparr>],
           bucketTime = 5, lastAccess = 0, lastIdx = 0, clock = \<lparr>Now = 12\<rparr>\<rparr> = Inr (w', 2)
        \<and> lastIdx w' = 2 \<and> lastAccess w' = 12
        \<and> buckets w' = [\<lparr>failure = 1, success = 0\<rparr>, \<lparr>failure = 0, success = 0\<rparr>,
                         \<lparr>failure = 0, success = 0\<rparr>])"
proof -
  let ?w = "\<lparr>buckets = [\<lparr>failure = 1, success = 0\<rparr>, \<lparr>failure = 2, success = 0\<rparr>,
                      \<lparr>failure = 3, success = 1\<rparr>],
           bucketTime = 5, lastAccess = 0, lastIdx = 0, clock = \<lparr>Now = 12\<rparr>\<rparr>"
  have h1: "3 = length (buckets ?w)" by simp
  have h2: "(0::nat) < 3" by simp
  have h3: "5 = bucketTime ?w" by simp
  have h4: "(0::duration) \<le>s 5" by (simp add: word_sle_eq)
  have h5: "Sub 12 0 = Sub (Now (clock ?w)) (lastAccess ?w)" by simp
  have h6: "2 = full_bucket_times 3 5 (Sub 12 0)" by code_simp
  have late: "(5::duration) <s Sub 12 0" by code_simp
  have r2: "ring_index ?w 2 = 2" by code_simp
  have r1: "ring_index ?w ` {1..2} = {1, 2}"
  proof -
    have "{1..2::nat} = {1, 2}" by auto
    moreover have "ring_index ?w 1 = 1" by code_simp
    ultimately show ?thesis using r2 by simp
  qed
  from getLatestBucket_rotation [OF h1 h2 h3 h5 h6] late h4
  obtain w' where w': "getLatestBucket ?w = Inr (w', ring_index ?w 2)"
    "lastIdx w' = lastIdx ?w + word_of_nat 2" "lastAccess w' = Now (clock ?w)"
    "length (buckets w') = 3"
    "\<forall>i<3. buckets w' ! i =
        (if i \<in> ring_index ?w ` {1..2} then \<lparr>failure = 0, success = 0\<rparr> else buckets ?w ! i)"
    by blast
  have "buckets w' ! 0 = \<lparr>failure = 1, success = 0\<rparr>"
    "buckets w' ! 1 = \<lparr>failure = 0, success = 0\<rparr>"
    "buckets w' ! 2 = \<lparr>failure = 0, success = 0\<rparr>"
    using w'(5) unfolding r1 by simp_all
  with w'(4) have "buckets w' = [\<lparr>failure = 1, success = 0\<rparr>, \<lparr>failure = 0, success = 0\<rparr>,
                         \<lparr>failure = 0, success = 0\<rparr>]"
    by (simp add: list_eq_iff_nth_eq less_Suc_eq numeral_3_eq_3 numeral_2_eq_2)
  with w'(1-3) r2 h2 h4 h6 late show ?thesis by simp
qed

section \<open>Counting without rotation\<close>

lemma sum_list_map_update:
  fixes g :: "'a \<Rightarrow> 'b::ab_group_add"
  shows "i < length xs \<Longrightarrow>
    sum_list (map g (xs[i := x])) = sum_list (map g xs) - g (xs ! i) + g x"
proof (induction xs arbitrary: i)
  case Nil
  then show ?case by simp
next
  case (Cons a xs)
  then show ?case by (cases i) (simp_all add: algebra_simps)
qed

lemma Failures_record_failure:
  "i < length (buckets w) \<Longrightarrow>
   Failures (w\<lparr>buckets := (buckets w)[i := bucket_Fail (buckets w ! i)]\<rparr>) = Failures w + 1
   \<and> Successes (w\<lparr>buckets := (buckets w)[i := bucket_Fail (buckets w ! i)]\<rparr>) = Successes w"
  by (simp add: Failures_sum Successes_sum sum_list_map_update bucket_Fail_def)

lemma Successes_record_success:
  "i < length (buckets w) \<Longrightarrow>
   Successes (w\<lparr>buckets := (buckets w)[i := bucket_Success (buckets w ! i)]\<rparr>) = Successes w + 1
   \<and> Failures (w\<lparr>buckets := (buckets w)[i := bucket_Success (buckets w ! i)]\<rparr>) = Failures w"
  by (simp add: Failures_sum Successes_sum sum_list_map_update bucket_Success_def)

lemma in_one_interval_cong:
  "clock w1 = clock w \<Longrightarrow> lastAccess w1 = lastAccess w \<Longrightarrow> bucketTime w1 = bucketTime w \<Longrightarrow>
   in_one_interval w1 ops = in_one_interval w ops"
proof (induction w ops arbitrary: w1 rule: in_one_interval.induct)
  case (1 w)
  then show ?case by simp
next
  case (2 w d xs)
  have "in_one_interval (w1\<lparr>clock := Add d (clock w1)\<rparr>) xs
        = in_one_interval (w\<lparr>clock := Add d (clock w)\<rparr>) xs"
    by (rule "2.IH") (simp_all add: "2.prems")
  then show ?case by simp
next
  case (3 w xs)
  from "3.IH" [OF "3.prems"] show ?case by simp
next
  case (4 w xs)
  from "4.IH" [OF "4.prems"] show ?case by (simp add: "4.prems")
next
  case (5 w xs)
  from "5.IH" [OF "5.prems"] show ?case by (simp add: "5.prems")
qed

lemma run_in_one_interval:
  assumes "0 < length (buckets w)" "length (buckets w) < 2 ^ 64"
    and "in_one_interval w ops" "OpReset \<notin> set ops"
  shows "\<exists>w'. run w ops = Inr w'
     \<and> Failures w' = Failures w + word_of_nat (length (filter (\<lambda>x. x = OpFail) ops))
     \<and> Successes w' = Successes w + word_of_nat (length (filter (\<lambda>x. x = OpSuccess) ops))"
  using assms
proof (induction ops arbitrary: w)
  case Nil
  then show ?case by simp
next
  case (Cons x xs)
  define b where "b = ring_index w 0"
  have b: "b < length (buckets w)"
    using Cons.prems by (simp add: b_def ring_index_less)
  show ?case
  proof (cases x)
    case OpFail
    with Cons.prems have stay: "\<not> bucketTime w <s Sub (Now (clock w)) (lastAccess w)"
      and rest: "in_one_interval w xs"
      by (simp_all add: word_sle_eq word_sless_alt)
    define w1 where "w1 = w\<lparr>buckets := (buckets w)[b := bucket_Fail (buckets w ! b)]\<rparr>"
    have s: "step w x = Inr w1"
      using OpFail Cons.prems(1) stay
      by (simp add: Fail_def getLatestBucket_stay w1_def b_def)
    have "in_one_interval w1 xs"
      using rest in_one_interval_cong [of w1 w xs] by (simp add: w1_def)
    moreover have "0 < length (buckets w1)" "length (buckets w1) < 2 ^ 64"
      using Cons.prems by (simp_all add: w1_def)
    moreover have "OpReset \<notin> set xs" using Cons.prems by simp
    ultimately obtain w' where w': "run w1 xs = Inr w'"
      "Failures w' = Failures w1 + word_of_nat (length (filter (\<lambda>x. x = OpFail) xs))"
      "Successes w' = Successes w1 + word_of_nat (length (filter (\<lambda>x. x = OpSuccess) xs))"
      using Cons.IH [of w1] by blast
    have "Failures w1 = Failures w + 1" "Successes w1 = Successes w"
      using Failures_record_failure [OF b] by (simp_all add: w1_def)
    with w' s OpFail show ?thesis by simp
  next
    case OpSuccess
    with Cons.prems have stay: "\<not> bucketTime w <s Sub (Now (clock w)) (lastAccess w)"
      and rest: "in_one_interval w xs"
      by (simp_all add: word_sle_eq word_sless_alt)
    define w1 where "w1 = w\<lparr>buckets := (buckets w)[b := bucket_Success (buckets w ! b)]\<rparr>"
    have s: "step w x = Inr w1"
      using OpSuccess Cons.prems(1) stay
      by (simp add: Success_def getLatestBucket_stay w1_def b_def)
    have "in_one_interval w1 xs"
      using rest in_one_interval_cong [of w1 w xs] by (simp add: w1_def)
    moreover have "0 < length (buckets w1)" "length (buckets w1) < 2 ^ 64"
      using Cons.prems by (simp_all add: w1_def)
    moreover have "OpReset \<notin> set xs" using Cons.prems by simp
    ultimately obtain w' where w': "run w1 xs = Inr w'"
      "Failures w' = Failures w1 + word_of_nat (length (filter (\<lambda>x. x = OpFail) xs))"
      "Successes w' = Successes w1 + word_of_nat (length (filter (\<lambda>x. x = OpSuccess) xs))"
      using Cons.IH [of w1] by blast
    have "Successes w1 = Successes w + 1" "Failures w1 = Failures w"
      using Successes_record_success [OF b] by (simp_all add: w1_def)
    with w' s OpSuccess show ?thesis by simp
  next
    case OpReset
    with Cons.prems show ?thesis by simp
  next
    case (OpAdd d)
    define w1 where "w1 = w\<lparr>clock := Add d (clock w)\<rparr>"
    have "in_one_interval w1 xs" using Cons.prems OpAdd by (simp add: w1_def)
    moreover have "0 < length (buckets w1)" "length (buckets w1) < 2 ^ 64"
      using Cons.prems by (simp_all add: w1_def)
    moreover have "OpReset \<notin> set xs" using Cons.prems by simp
    ultimately obtain w' where w': "run w1 xs = Inr w'"
      "Failures w' = Failures w1 + word_of_nat (length (filter (\<lambda>x. x = OpFail) xs))"
      "Successes w' = Successes w1 + word_of_nat (length (filter (\<lambda>x. x = OpSuccess) xs))"
      using Cons.IH [of w1] by blast
    have "Failures w1 = Failures w" "Successes w1 = Successes w"
      by (simp_all add: w1_def Failures_sum Successes_sum)
    with w' OpAdd show ?thesis by (simp add: w1_def)
  qed
qed

lemma Total_split: "Total w = Failures w + Successes w"
  by (simp add: Total_sum Failures_sum Successes_sum sum_list_map_add add.commute)

lemma sint_word_of_nat:
  "n < 2 ^ 63 \<Longrightarrow> sint (word_of_nat n :: int64) = int n"
proof -
  assume n: "n < 2 ^ 63"
  have "sint (word_of_nat n :: int64) = signed_take_bit 63 (int n)"
    by (simp add: signed_of_nat)
  also have "\<dots> = int n"
    using n by (intro signed_take_bit_int_eq_self) simp_all
  finally show ?thesis by simp
qed

lemma word_of_nat_eq_0:
  "n < 2 ^ 63 \<Longrightarrow> (word_of_nat n :: int64) = 0 \<longleftrightarrow> n = 0"
  using sint_word_of_nat [of n] by (auto simp add: signed_eq_0_iff [symmetric])

lemma newWindow_Inr:
  assumes "newWindow windowTime windowBuckets clk = Inr w0"
  shows "0 < sint windowBuckets"
    and "buckets w0 = replicate (nat (sint windowBuckets)) \<lparr>failure = 0, success = 0\<rparr>"
    and "bucketTime w0 = div64 windowTime windowBuckets"
    and "lastAccess w0 = Now clk" and "lastIdx w0 = 0" and "clock w0 = clk"
proof -
  from assms have a: "\<not> windowBuckets <s 0" "windowBuckets \<noteq> 0"
    by (auto simp add: newWindow_def split: if_splits)
  then have "sint windowBuckets \<noteq> 0" by (simp add: signed_eq_0_iff)
  with a show "0 < sint windowBuckets" by (simp add: word_sless_alt)
  from assms a show "buckets w0 = replicate (nat (sint windowBuckets)) \<lparr>failure = 0, success = 0\<rparr>"
    and "bucketTime w0 = div64 windowTime windowBuckets"
    and "lastAccess w0 = Now clk" and "lastIdx w0 = 0" and "clock w0 = clk"
    by (auto simp add: newWindow_def)
qed

lemma newWindow_ring:
  assumes "newWindow windowTime windowBuckets clk = Inr w0"
  shows "0 < length (buckets w0)" and "length (buckets w0) < 2 ^ 63"
    and "Failures w0 = 0" and "Successes w0 = 0"
proof -
  note f = newWindow_Inr [OF assms]
  show "0 < length (buckets w0)" using f(1,2) by simp
  have "sint windowBuckets < 2 ^ 63" using sint_lt [of windowBuckets] by simp
  then show "length (buckets w0) < 2 ^ 63" using f(1,2) by simp
  show "Failures w0 = 0" "Successes w0 = 0"
    using f(2) by (simp_all add: Failures_sum Successes_sum sum_list_replicate)
qed

text \<open>
  C4: a fresh window and a sequence of \<open>Fail\<close> and \<open>Success\<close> calls, \<open>N\<close> and \<open>M\<close> of
  them, all within one bucket interval, the clock advancing or not in between. The
  calls all return, and then \<open>Failures\<close> is \<open>N\<close>, \<open>Successes\<close> is \<open>M\<close> and \<open>Total\<close> is
  \<open>N + M\<close> as \<open>int64\<close> values; when \<open>N + M\<close> is below \<open>2 ^ 63\<close> these are the numbers
  themselves, and \<open>ErrorRate\<close> is \<open>N / (N + M)\<close>, or 0 when there was no call.
\<close>

theorem counts_within_one_bucket:
  assumes new: "newWindow windowTime windowBuckets clk = Inr w0"
    and one: "in_one_interval w0 ops" and noreset: "OpReset \<notin> set ops"
    and N: "N = length (filter (\<lambda>x. x = OpFail) ops)"
    and M: "M = length (filter (\<lambda>x. x = OpSuccess) ops)"
  shows "\<exists>w. run w0 ops = Inr w
      \<and> Failures w = word_of_nat N \<and> Successes w = word_of_nat M
      \<and> Total w = word_of_nat (N + M)
      \<and> (N + M < 2 ^ 63 \<longrightarrow>
           sint (Failures w) = int N \<and> sint (Successes w) = int M
           \<and> sint (Total w) = int (N + M)
           \<and> ErrorRate w = (if N + M = 0 then 0 else real N / real (N + M)))"
proof -
  note ring = newWindow_ring [OF new]
  have "length (buckets w0) < 2 ^ 64" using ring(2) by simp
  from run_in_one_interval [OF ring(1) this one noreset]
  obtain w where w: "run w0 ops = Inr w" "Failures w = word_of_nat N"
    "Successes w = word_of_nat M"
    using ring(3,4) N M by auto
  have T: "Total w = word_of_nat (N + M)"
    using w by (simp add: Total_split)
  have "sint (Failures w) = int N \<and> sint (Successes w) = int M
           \<and> sint (Total w) = int (N + M)
           \<and> ErrorRate w = (if N + M = 0 then 0 else real N / real (N + M))"
    if small: "N + M < 2 ^ 63"
  proof -
    have sN: "sint (Failures w) = int N" and sM: "sint (Successes w) = int M"
      using small w by (simp_all add: sint_word_of_nat)
    have sT: "sint (Total w) = int (N + M)"
      unfolding T using small by (rule sint_word_of_nat)
    have SF: "Successes w + Failures w = word_of_nat (N + M)"
      using w by (simp add: add.commute)
    have z: "(Successes w + Failures w = 0) = (N + M = 0)"
      unfolding SF using small by (rule word_of_nat_eq_0)
    have "sint (Successes w + Failures w) = int (N + M)"
      unfolding SF using small by (rule sint_word_of_nat)
    then have "ErrorRate w = (if N + M = 0 then 0 else real N / real (N + M))"
      unfolding ErrorRate_sum z sN by simp
    with sN sM sT show ?thesis by simp
  qed
  with w T show ?thesis by blast
qed

theorem counts_within_one_bucket_witness:
  "newWindow 10000000 2 \<lparr>Now = 0\<rparr>
     = Inr \<lparr>buckets = [\<lparr>failure = 0, success = 0\<rparr>, \<lparr>failure = 0, success = 0\<rparr>],
            bucketTime = 5000000, lastAccess = 0, lastIdx = 0, clock = \<lparr>Now = 0\<rparr>\<rparr>
   \<and> in_one_interval
        \<lparr>buckets = [\<lparr>failure = 0, success = 0\<rparr>, \<lparr>failure = 0, success = 0\<rparr>],
         bucketTime = 5000000, lastAccess = 0, lastIdx = 0, clock = \<lparr>Now = 0\<rparr>\<rparr>
        [OpFail, OpFail, OpAdd 3000000, OpSuccess, OpSuccess]
   \<and> OpReset \<notin> set [OpFail, OpFail, OpAdd 3000000, OpSuccess, OpSuccess]
   \<and> (\<exists>w. run \<lparr>buckets = [\<lparr>failure = 0, success = 0\<rparr>, \<lparr>failure = 0, success = 0\<rparr>],
               bucketTime = 5000000, lastAccess = 0, lastIdx = 0, clock = \<lparr>Now = 0\<rparr>\<rparr>
              [OpFail, OpFail, OpAdd 3000000, OpSuccess, OpSuccess] = Inr w
          \<and> Failures w = 2 \<and> Successes w = 2 \<and> Total w = 4 \<and> ErrorRate w = 1 / 2)"
proof -
  let ?w0 = "\<lparr>buckets = [\<lparr>failure = 0, success = 0\<rparr>, \<lparr>failure = 0, success = 0\<rparr>],
            bucketTime = 5000000, lastAccess = 0, lastIdx = 0, clock = \<lparr>Now = 0\<rparr>\<rparr>"
  let ?ops = "[OpFail, OpFail, OpAdd 3000000, OpSuccess, OpSuccess]"
  have h1: "newWindow 10000000 2 \<lparr>Now = 0\<rparr> = Inr ?w0"
    by code_simp
  have h2: "in_one_interval ?w0 ?ops"
    by code_simp
  have h3: "OpReset \<notin> set ?ops" by simp
  from counts_within_one_bucket [OF h1 h2 h3 refl refl]
  obtain w where "run ?w0 ?ops = Inr w" "Failures w = 2" "Successes w = 2" "Total w = 4"
    "ErrorRate w = 1 / 2"
    by auto
  with h1 h2 h3 show ?thesis by blast
qed

section \<open>What a sequence of calls keeps\<close>

lemma sum_list_pointwise_le:
  fixes g :: "'a \<Rightarrow> nat"
  shows "list_all2 (\<lambda>x y. g x \<le> g y) xs ys \<Longrightarrow> sum_list (map g xs) \<le> sum_list (map g ys)"
  by (induction rule: list_all2_induct) simp_all

lemma sum_list_map_update_nat:
  fixes g :: "'a \<Rightarrow> nat"
  shows "i < length xs \<Longrightarrow>
    sum_list (map g (xs[i := x])) + g (xs ! i) = sum_list (map g xs) + g x"
proof (induction xs arbitrary: i)
  case Nil
  then show ?case by simp
next
  case (Cons a xs)
  then show ?case by (cases i) (simp_all add: algebra_simps)
qed

lemma unat_Suc_le: "unat ((x::int64) + 1) \<le> unat x + 1"
  by (simp add: unat_word_ariths)

lemma getLatestBucket_ring:
  assumes g: "getLatestBucket w = Inr (w', b)"
    and n: "0 < length (buckets w)" "length (buckets w) < 2 ^ 64"
  shows "recorded w' \<le> recorded w \<and> length (buckets w') = length (buckets w)
    \<and> b < length (buckets w) \<and> bucketTime w' = bucketTime w"
proof (cases "bucketTime w <s Sub (Now (clock w)) (lastAccess w)")
  case False
  with g n have "w' = w" "b = ring_index w 0"
    by (auto simp add: getLatestBucket_stay)
  with n show ?thesis by (simp add: ring_index_less)
next
  case True
  define k where "k = rotate_count (length (buckets w)) (bucketTime w)
    (Sub (Now (clock w)) (lastAccess w))"
  from getLatestBucket_rotate [OF n(1) True k_def] g
  have w': "b = ring_index w k" "bucketTime w' = bucketTime w"
    "length (buckets w') = length (buckets w)"
    "\<forall>i < length (buckets w). buckets w' ! i =
        (if i \<in> ring_index w ` {1..k} then \<lparr>failure = 0, success = 0\<rparr> else buckets w ! i)"
    by auto
  have "list_all2 (\<lambda>x y. unat (failure x) + unat (success x) \<le> unat (failure y) + unat (success y))
      (buckets w') (buckets w)"
    using w'(3,4) by (simp add: list_all2_conv_all_nth)
  then have "recorded w' \<le> recorded w"
    unfolding recorded_def by (rule sum_list_pointwise_le)
  with w' n show ?thesis by (simp add: ring_index_less)
qed

lemma Fail_ring:
  assumes f: "Fail w = Inr w'"
    and n: "0 < length (buckets w)" "length (buckets w) < 2 ^ 64"
  shows "recorded w' \<le> recorded w + 1 \<and> length (buckets w') = length (buckets w)
    \<and> bucketTime w' = bucketTime w"
proof -
  from f obtain w1 b where g: "getLatestBucket w = Inr (w1, b)"
    and w': "w' = w1\<lparr>buckets := (buckets w1)[b := bucket_Fail (buckets w1 ! b)]\<rparr>"
    by (auto simp add: Fail_def split: sum.splits)
  note r = getLatestBucket_ring [OF g n]
  let ?g = "\<lambda>b. unat (failure b) + unat (success b)"
  have b: "b < length (buckets w1)" using r by simp
  have "?g (bucket_Fail (buckets w1 ! b)) \<le> ?g (buckets w1 ! b) + 1"
    using unat_Suc_le [of "failure (buckets w1 ! b)"] by (simp add: bucket_Fail_def)
  moreover have "recorded w' + ?g (buckets w1 ! b) = recorded w1 + ?g (bucket_Fail (buckets w1 ! b))"
    unfolding recorded_def w' using sum_list_map_update_nat [OF b, of ?g] by simp
  ultimately have "recorded w' \<le> recorded w1 + 1" by linarith
  with r show ?thesis by (simp add: w')
qed

lemma Success_ring:
  assumes f: "Success w = Inr w'"
    and n: "0 < length (buckets w)" "length (buckets w) < 2 ^ 64"
  shows "recorded w' \<le> recorded w + 1 \<and> length (buckets w') = length (buckets w)
    \<and> bucketTime w' = bucketTime w"
proof -
  from f obtain w1 b where g: "getLatestBucket w = Inr (w1, b)"
    and w': "w' = w1\<lparr>buckets := (buckets w1)[b := bucket_Success (buckets w1 ! b)]\<rparr>"
    by (auto simp add: Success_def split: sum.splits)
  note r = getLatestBucket_ring [OF g n]
  let ?g = "\<lambda>b. unat (failure b) + unat (success b)"
  have b: "b < length (buckets w1)" using r by simp
  have "?g (bucket_Success (buckets w1 ! b)) \<le> ?g (buckets w1 ! b) + 1"
    using unat_Suc_le [of "success (buckets w1 ! b)"] by (simp add: bucket_Success_def)
  moreover have "recorded w' + ?g (buckets w1 ! b) = recorded w1 + ?g (bucket_Success (buckets w1 ! b))"
    unfolding recorded_def w' using sum_list_map_update_nat [OF b, of ?g] by simp
  ultimately have "recorded w' \<le> recorded w1 + 1" by linarith
  with r show ?thesis by (simp add: w')
qed

lemma Reset_ring:
  "recorded (Reset w) = 0 \<and> length (buckets (Reset w)) = length (buckets w)
   \<and> bucketTime (Reset w) = bucketTime w"
proof -
  have "sum_list (map (\<lambda>b. unat (failure b) + unat (success b)) (map bucket_Reset bs)) = 0"
    for bs :: "bucket list"
    by (induction bs) (simp_all add: bucket_Reset_def)
  then show ?thesis
    by (simp add: recorded_def Reset_buckets) (simp add: Reset_def)
qed

lemma step_ring:
  assumes s: "step w x = Inr w'"
    and n: "0 < length (buckets w)" "length (buckets w) < 2 ^ 64"
  shows "recorded w' \<le> recorded w + 1 \<and> length (buckets w') = length (buckets w)
    \<and> bucketTime w' = bucketTime w"
proof (cases x)
  case OpFail
  with s Fail_ring [OF _ n] show ?thesis by simp
next
  case OpSuccess
  with s Success_ring [OF _ n] show ?thesis by simp
next
  case OpReset
  with s Reset_ring [of w] show ?thesis by auto
next
  case (OpAdd d)
  with s show ?thesis by (auto simp add: recorded_def)
qed

lemma run_ring:
  assumes "run w ops = Inr w'"
    and "0 < length (buckets w)" "length (buckets w) < 2 ^ 64"
  shows "recorded w' \<le> recorded w + length ops \<and> length (buckets w') = length (buckets w)
    \<and> bucketTime w' = bucketTime w"
  using assms
proof (induction ops arbitrary: w)
  case Nil
  then show ?case by simp
next
  case (Cons x xs)
  from Cons.prems(1) obtain w1 where s: "step w x = Inr w1" and r: "run w1 xs = Inr w'"
    by (auto split: sum.splits)
  note a = step_ring [OF s Cons.prems(2,3)]
  have "0 < length (buckets w1)" "length (buckets w1) < 2 ^ 64"
    using a Cons.prems by simp_all
  from Cons.IH [OF r this] a show ?case by simp
qed

lemma unat_sum_list:
  "sum_list (map unat ws) < 2 ^ 64 \<Longrightarrow> unat (sum_list (ws::int64 list)) = sum_list (map unat ws)"
proof (induction ws)
  case Nil
  then show ?case by simp
next
  case (Cons a ws)
  then have ih: "unat (sum_list ws) = sum_list (map unat ws)" by simp
  have "unat a + unat (sum_list ws) < 2 ^ LENGTH(64)"
    using Cons.prems ih by simp
  then have "unat (a + sum_list ws) = unat a + unat (sum_list ws)"
    by (simp add: unat_add_lem [THEN iffD1])
  with ih show ?case by simp
qed

lemma sint_eq_unat:
  "unat (x::int64) < 2 ^ 63 \<Longrightarrow> sint x = int (unat x)"
proof -
  assume a: "unat x < 2 ^ 63"
  then have "int (unat x) < int (2 ^ 63)" by (simp only: of_nat_less_iff)
  then have "int (unat x) < 2 ^ 63" by simp
  then have "uint x < 2 ^ 63" by (simp only: uint_nat)
  moreover have "- (2 ^ 63) \<le> uint x"
    by (rule order_trans [of _ 0]) simp_all
  ultimately have "signed_take_bit 63 (uint x) = uint x"
    by (intro signed_take_bit_int_eq_self)
  then show ?thesis by (simp add: sint_uint)
qed

lemma fraction_bounds:
  fixes f s :: int
  assumes "0 \<le> f" "0 \<le> s" "0 < f + s"
  shows "0 \<le> real_of_int f / real_of_int (f + s) \<and> real_of_int f / real_of_int (f + s) \<le> 1"
  using assms by simp

lemma recorded_split:
  "recorded w = sum_list (map unat (map failure (buckets w)))
              + sum_list (map unat (map success (buckets w)))"
  by (simp add: recorded_def comp_def sum_list_addf)

lemma small_counts:
  assumes "recorded w < 2 ^ 63"
  shows "sint (Failures w) = int (sum_list (map unat (map failure (buckets w))))"
    and "sint (Successes w) = int (sum_list (map unat (map success (buckets w))))"
    and "sint (Successes w + Failures w) = int (recorded w)"
    and "Successes w + Failures w = 0 \<longleftrightarrow> recorded w = 0"
proof -
  let ?F = "sum_list (map unat (map failure (buckets w)))"
  let ?S = "sum_list (map unat (map success (buckets w)))"
  have r: "recorded w = ?F + ?S" by (rule recorded_split)
  have F: "?F < 2 ^ 63" and S: "?S < 2 ^ 63" using assms r by simp_all
  have uF: "unat (Failures w) = ?F"
    unfolding Failures_sum using F by (intro unat_sum_list) simp
  have uS: "unat (Successes w) = ?S"
    unfolding Successes_sum using S by (intro unat_sum_list) simp
  show "sint (Failures w) = int ?F" using sint_eq_unat [of "Failures w"] uF F by simp
  show "sint (Successes w) = int ?S" using sint_eq_unat [of "Successes w"] uS S by simp
  have "unat (Successes w) + unat (Failures w) < 2 ^ LENGTH(64)"
    using uF uS assms r by simp
  then have u: "unat (Successes w + Failures w) = ?S + ?F"
    using uF uS by (simp add: unat_add_lem [THEN iffD1])
  then show "sint (Successes w + Failures w) = int (recorded w)"
    using sint_eq_unat [of "Successes w + Failures w"] assms r by simp
  show "Successes w + Failures w = 0 \<longleftrightarrow> recorded w = 0"
    using u r by (metis add.commute unat_eq_zero)
qed

lemma session_ring:
  assumes "session windowTime windowBuckets clk ops = Inr w"
  shows "recorded w \<le> length ops"
    and "length (buckets w) = nat (sint windowBuckets)" and "0 < sint windowBuckets"
    and "bucketTime w = div64 windowTime windowBuckets"
proof -
  from assms obtain w0 where new: "newWindow windowTime windowBuckets clk = Inr w0"
    and r: "run w0 ops = Inr w"
    by (auto simp add: session_def split: sum.splits)
  note f = newWindow_Inr [OF new] and g = newWindow_ring [OF new]
  have l: "length (buckets w0) < 2 ^ 64" using g(2) by simp
  note rr = run_ring [OF r g(1) l]
  have "recorded w0 = 0" using f(2) by (simp add: recorded_def sum_list_replicate)
  with rr show "recorded w \<le> length ops" by simp
  show "length (buckets w) = nat (sint windowBuckets)" using rr f(2) by simp
  show "0 < sint windowBuckets" by (rule f(1))
  show "bucketTime w = div64 windowTime windowBuckets" using rr f(3) by simp
qed

section \<open>Error rate\<close>

text \<open>
  C9: in every window that fewer than \<open>2 ^ 63\<close> calls reach from its construction, so
  that no \<open>int64\<close> counter has wrapped around, \<open>Failures\<close> and \<open>Successes\<close> are not
  negative, \<open>Total\<close> is their sum, and \<open>ErrorRate\<close> is 0 when \<open>Total\<close> is 0 and
  failures over failures plus successes otherwise, a fraction between 0 and 1.
\<close>

theorem ErrorRate_reachable:
  assumes "session windowTime windowBuckets clk ops = Inr w"
    and "length ops < 2 ^ 63"
  shows "0 \<le> sint (Failures w) \<and> 0 \<le> sint (Successes w)
     \<and> sint (Total w) = sint (Failures w) + sint (Successes w)
     \<and> ErrorRate w =
         (if Total w = 0 then 0
          else real_of_int (sint (Failures w))
               / real_of_int (sint (Failures w) + sint (Successes w)))
     \<and> 0 \<le> ErrorRate w \<and> ErrorRate w \<le> 1"
proof -
  have small: "recorded w < 2 ^ 63"
    using session_ring(1) [OF assms(1)] assms(2) by simp
  note c = small_counts [OF small]
  have T: "Total w = Successes w + Failures w" by (simp add: Total_split add.commute)
  have sum: "int (recorded w) = sint (Failures w) + sint (Successes w)"
    using c(1,2) by (simp add: recorded_split)
  have F: "0 \<le> sint (Failures w)" and S: "0 \<le> sint (Successes w)"
    using c(1,2) by simp_all
  have sT: "sint (Total w) = sint (Failures w) + sint (Successes w)"
    using c(3) sum by (simp add: T)
  have rate: "ErrorRate w =
         (if Total w = 0 then 0
          else real_of_int (sint (Failures w))
               / real_of_int (sint (Failures w) + sint (Successes w)))"
    unfolding ErrorRate_sum T using c(3) sum by simp
  have "0 \<le> ErrorRate w \<and> ErrorRate w \<le> 1"
  proof (cases "Total w = 0")
    case True
    with rate show ?thesis by simp
  next
    case False
    then have "recorded w \<noteq> 0" using c(4) T by simp
    then have pos: "0 < sint (Failures w) + sint (Successes w)" using sum by linarith
    from fraction_bounds [OF F S pos] rate False show ?thesis by (simp only: if_False)
  qed
  with F S sT rate show ?thesis by simp
qed

theorem ErrorRate_reachable_witness:
  "session 10000000 2 \<lparr>Now = 0\<rparr> [OpFail, OpAdd 6000000, OpFail, OpSuccess, OpSuccess]
     = Inr \<lparr>buckets = [\<lparr>failure = 1, success = 0\<rparr>, \<lparr>failure = 1, success = 2\<rparr>],
            bucketTime = 5000000, lastAccess = 6000000, lastIdx = 1,
            clock = \<lparr>Now = 6000000\<rparr>\<rparr>
   \<and> length [OpFail, OpAdd 6000000, OpFail, OpSuccess, OpSuccess] < 2 ^ 63
   \<and> ErrorRate \<lparr>buckets = [\<lparr>failure = 1, success = 0\<rparr>, \<lparr>failure = 1, success = 2\<rparr>],
            bucketTime = 5000000, lastAccess = 6000000, lastIdx = 1,
            clock = \<lparr>Now = 6000000\<rparr>\<rparr> = 1 / 2
   \<and> ErrorRate \<lparr>buckets = [\<lparr>failure = 1, success = 0\<rparr>, \<lparr>failure = 1, success = 2\<rparr>],
            bucketTime = 5000000, lastAccess = 6000000, lastIdx = 1,
            clock = \<lparr>Now = 6000000\<rparr>\<rparr> \<le> 1"
proof -
  let ?w = "\<lparr>buckets = [\<lparr>failure = 1, success = 0\<rparr>, \<lparr>failure = 1, success = 2\<rparr>],
            bucketTime = 5000000, lastAccess = 6000000, lastIdx = 1,
            clock = \<lparr>Now = 6000000\<rparr>\<rparr>"
  let ?ops = "[OpFail, OpAdd 6000000, OpFail, OpSuccess, OpSuccess]"
  have h1: "session 10000000 2 \<lparr>Now = 0\<rparr> ?ops = Inr ?w" by code_simp
  have h2: "length ?ops < 2 ^ 63" by simp
  have v: "Failures ?w = 2" "Successes ?w = 2" "Total ?w = 4" by code_simp+
  from ErrorRate_reachable [OF h1 h2]
  have "ErrorRate ?w =
         (if Total ?w = 0 then 0
          else real_of_int (sint (Failures ?w))
               / real_of_int (sint (Failures ?w) + sint (Successes ?w)))"
    and le: "ErrorRate ?w \<le> 1"
    by blast+
  then have "ErrorRate ?w = 1 / 2" unfolding v by simp
  with h1 h2 le show ?thesis by blast
qed

section \<open>Expiry of the whole window\<close>

lemma div_times_le:
  fixes a b :: int
  assumes "0 \<le> a" "0 < b"
  shows "0 \<le> a div b" and "b * (a div b) \<le> a" and "a div b \<le> a"
proof -
  show q: "0 \<le> a div b" using assms by (simp add: pos_imp_zdiv_nonneg_iff)
  have "b * (a div b) + a mod b = a" by (rule mult_div_mod_eq)
  moreover have "0 \<le> a mod b" using assms(2) by simp
  ultimately show le: "b * (a div b) \<le> a" by linarith
  have "1 * (a div b) \<le> b * (a div b)"
    using assms(2) q by (intro mult_right_mono) simp_all
  with le show "a div b \<le> a" by simp
qed

lemma sint_div64:
  assumes "0 \<le> sint a" "0 < sint b"
  shows "sint (div64 a b) = sint a div sint b"
proof -
  have q: "sint a sdiv sint b = sint a div sint b"
    using assms by (cases "sint a = 0") (simp_all add: signed_divide_int_def)
  note d = div_times_le [OF assms]
  have "sint a < 2 ^ 63" using sint_lt [of a] by simp
  with d(3) have "sint a div sint b < 2 ^ 63" by linarith
  moreover have "- (2 ^ 63) \<le> sint a div sint b"
    using d(1) by (rule order_trans [rotated]) simp
  ultimately have "signed_take_bit 63 (sint a div sint b) = sint a div sint b"
    by (intro signed_take_bit_int_eq_self)
  then show ?thesis by (simp add: div64_def q sint_sbintrunc')
qed

lemma whole_window_bound:
  assumes "0 \<le> sint a" "0 < sint b"
  shows "0 \<le> sint (div64 a b)" and "int (nat (sint b)) * sint (div64 a b) \<le> sint a"
  using div_times_le [OF assms] assms by (simp_all add: sint_div64)

lemma getLatestBucket_expired:
  assumes n: "0 < length (buckets w)"
    and nowrap: "unat (lastIdx w) + length (buckets w) < 2 ^ 64"
    and bt: "0 \<le> sint (bucketTime w)"
    and gap: "int (length (buckets w)) * sint (bucketTime w)
                < sint (Sub (Now (clock w)) (lastAccess w))"
  shows "\<exists>w' b. getLatestBucket w = Inr (w', b) \<and> b < length (buckets w)
           \<and> buckets w' = replicate (length (buckets w)) \<lparr>failure = 0, success = 0\<rparr>"
proof -
  define e where "e = Sub (Now (clock w)) (lastAccess w)"
  define m where "m = length (buckets w)"
  have "1 \<le> int m" using n unfolding m_def by linarith
  then have "1 * sint (bucketTime w) \<le> int m * sint (bucketTime w)"
    using bt by (intro mult_right_mono)
  with gap have lt: "sint (bucketTime w) < sint e" by (simp add: e_def m_def)
  then have late: "bucketTime w <s Sub (Now (clock w)) (lastAccess w)"
    by (simp add: word_sless_alt e_def)
  have "full_bucket_times m (bucketTime w) e = m"
    using full_bucket_times_whole_window [OF bt, of m e] gap by (simp add: e_def m_def)
  then have k: "m = rotate_count (length (buckets w)) (bucketTime w)
      (Sub (Now (clock w)) (lastAccess w))"
    using full_bucket_times_eq_rotate_count [OF bt lt, of m] by (simp add: e_def m_def)
  from getLatestBucket_rotate [OF n late k]
  obtain w' where w': "getLatestBucket w = Inr (w', ring_index w m)"
    "length (buckets w') = length (buckets w)"
    "\<forall>i < length (buckets w). buckets w' ! i =
        (if i \<in> ring_index w ` {1..m} then \<lparr>failure = 0, success = 0\<rparr> else buckets w ! i)"
    by (elim exE conjE) (rule that, assumption+)
  have cover: "ring_index w ` {1..m} = {0..<m}"
    unfolding m_def by (rule ring_index_cover [OF n nowrap])
  have "buckets w' = replicate m \<lparr>failure = 0, success = 0\<rparr>"
  proof (rule nth_equalityI)
    show "length (buckets w') = length (replicate m \<lparr>failure = 0, success = 0\<rparr>)"
      using w'(2) by (simp add: m_def)
  next
    fix i assume "i < length (buckets w')"
    then have i: "i < length (buckets w)" using w'(2) by simp
    then have "i \<in> ring_index w ` {1..m}" unfolding cover by (simp add: m_def)
    moreover have "buckets w' ! i =
        (if i \<in> ring_index w ` {1..m} then \<lparr>failure = 0, success = 0\<rparr> else buckets w ! i)"
      using w'(3) i by blast
    ultimately show "buckets w' ! i = replicate m \<lparr>failure = 0, success = 0\<rparr> ! i"
      using i by (simp add: m_def)
  qed
  moreover have "ring_index w m < length (buckets w)"
    using n nowrap by (intro ring_index_less) simp_all
  ultimately show ?thesis using w'(1) by (simp add: m_def)
qed

lemma sum_list_replicate_update:
  fixes g :: "bucket \<Rightarrow> int64"
  assumes "b < m" "g \<lparr>failure = 0, success = 0\<rparr> = 0"
  shows "sum_list (map g ((replicate m \<lparr>failure = 0, success = 0\<rparr>)[b := x])) = g x"
  using assms sum_list_map_update [of b "replicate m \<lparr>failure = 0, success = 0\<rparr>" g x]
  by (simp add: sum_list_replicate)

text \<open>
  C5, as stated, fails: the buckets are cleared by the next \<open>Fail\<close> or \<open>Success\<close>, not
  by the clock. A window of 10 ms in 2 buckets, one failure, the clock moved by 20 ms
  and no call since: \<open>Failures\<close> still returns 1.
\<close>

theorem lazy_expiry_counterexample:
  "map_sum id Failures
     (session 10000000 2 \<lparr>Now = 0\<rparr> [OpFail, OpAdd 20000000]) = Inr 1"
  by code_simp

text \<open>
  C5, amended: once the clock is beyond the total window duration past \<open>lastAccess\<close>,
  the next \<open>Fail\<close> or \<open>Success\<close> clears every count recorded before and records itself:
  right after it \<open>Failures\<close> is 1 and \<open>Successes\<close> 0 for a \<open>Fail\<close>, 0 and 1 for a
  \<open>Success\<close>. The window is any one a sequence of calls reaches from its construction
  with a duration that is not negative, \<open>lastIdx\<close> not passing \<open>2 ^ 64\<close> in the call.
\<close>

theorem expiry_on_next_call:
  assumes s: "session windowTime windowBuckets clk ops = Inr w"
    and wt: "0 \<le>s windowTime"
    and gap: "windowTime <s Sub (Now (clock w)) (lastAccess w)"
    and nowrap: "unat (lastIdx w) + length (buckets w) < 2 ^ 64"
  shows "(\<exists>w'. Fail w = Inr w' \<and> Failures w' = 1 \<and> Successes w' = 0 \<and> Total w' = 1)
       \<and> (\<exists>w'. Success w = Inr w' \<and> Failures w' = 0 \<and> Successes w' = 1 \<and> Total w' = 1)"
proof -
  note r = session_ring [OF s]
  have wt0: "0 \<le> sint windowTime" using wt by (simp add: word_sle_eq)
  note d = whole_window_bound [OF wt0 r(3)]
  have n: "0 < length (buckets w)" using r(2,3) by simp
  have bt: "0 \<le> sint (bucketTime w)" using d(1) r(4) by simp
  have "int (length (buckets w)) * sint (bucketTime w) \<le> sint windowTime"
    using d(2) r(2,4) by simp
  moreover have "sint windowTime < sint (Sub (Now (clock w)) (lastAccess w))"
    using gap by (simp add: word_sless_alt)
  ultimately have g: "int (length (buckets w)) * sint (bucketTime w)
                < sint (Sub (Now (clock w)) (lastAccess w))"
    by linarith
  from getLatestBucket_expired [OF n nowrap bt g]
  obtain w1 b where w1: "getLatestBucket w = Inr (w1, b)" "b < length (buckets w)"
    "buckets w1 = replicate (length (buckets w)) \<lparr>failure = 0, success = 0\<rparr>"
    by blast
  let ?z = "\<lparr>failure = 0, success = 0\<rparr> :: bucket"
  let ?f = "w1\<lparr>buckets := (buckets w1)[b := bucket_Fail (buckets w1 ! b)]\<rparr>"
  let ?s = "w1\<lparr>buckets := (buckets w1)[b := bucket_Success (buckets w1 ! b)]\<rparr>"
  have zb: "buckets w1 ! b = ?z" using w1(2,3) by simp
  have "Fail w = Inr ?f" using w1(1) by (simp add: Fail_def)
  moreover have "Failures ?f = 1" "Successes ?f = 0"
    using w1(2) sum_list_replicate_update [of b "length (buckets w)"]
    by (simp_all add: Failures_sum Successes_sum w1(3) bucket_Fail_def)
  moreover have "Success w = Inr ?s" using w1(1) by (simp add: Success_def)
  moreover have "Failures ?s = 0" "Successes ?s = 1"
    using w1(2) sum_list_replicate_update [of b "length (buckets w)"]
    by (simp_all add: Failures_sum Successes_sum w1(3) bucket_Success_def)
  ultimately show ?thesis
    by (simp add: Total_split)
qed

theorem expiry_on_next_call_witness:
  "session 10000000 2 \<lparr>Now = 0\<rparr> [OpFail, OpAdd 20000000]
     = Inr \<lparr>buckets = [\<lparr>failure = 1, success = 0\<rparr>, \<lparr>failure = 0, success = 0\<rparr>],
            bucketTime = 5000000, lastAccess = 0, lastIdx = 0,
            clock = \<lparr>Now = 20000000\<rparr>\<rparr>
   \<and> (0::duration) \<le>s 10000000
   \<and> (10000000::duration) <s Sub 20000000 0
   \<and> (\<exists>w'. Success \<lparr>buckets = [\<lparr>failure = 1, success = 0\<rparr>, \<lparr>failure = 0, success = 0\<rparr>],
            bucketTime = 5000000, lastAccess = 0, lastIdx = 0,
            clock = \<lparr>Now = 20000000\<rparr>\<rparr> = Inr w'
          \<and> Failures w' = 0 \<and> Successes w' = 1)"
proof -
  let ?w = "\<lparr>buckets = [\<lparr>failure = 1, success = 0\<rparr>, \<lparr>failure = 0, success = 0\<rparr>],
            bucketTime = 5000000, lastAccess = 0, lastIdx = 0,
            clock = \<lparr>Now = 20000000\<rparr>\<rparr>"
  have h1: "session 10000000 2 \<lparr>Now = 0\<rparr> [OpFail, OpAdd 20000000] = Inr ?w" by code_simp
  have h2: "(0::duration) \<le>s 10000000" by (simp add: word_sle_eq)
  have h3': "(10000000::duration) <s Sub 20000000 0" by code_simp
  then have h3: "(10000000::duration) <s Sub (Now (clock ?w)) (lastAccess ?w)" by simp
  have h4: "unat (lastIdx ?w) + length (buckets ?w) < 2 ^ 64" by simp
  from expiry_on_next_call [OF h1 h2 h3 h4]
  have "\<exists>w'. Success ?w = Inr w' \<and> Failures w' = 0 \<and> Successes w' = 1" by blast
  with h1 h2 h3' show ?thesis by blast
qed

section \<open>Saturation\<close>

lemma sint_pos_unat:
  "0 <s (c::int64) \<Longrightarrow> sint c = int (unat c) \<and> 0 < unat c \<and> unat c < 2 ^ 63"
proof -
  assume "0 <s c"
  then have p: "0 < sint c" by (simp add: word_sless_alt)
  have s: "sint c = signed_take_bit 63 (uint c)" by (simp add: sint_uint)
  have small: "uint c < 2 ^ 63"
  proof (rule ccontr)
    assume "\<not> uint c < 2 ^ 63"
    then have "2 ^ 63 \<le> uint c" by simp
    then have "signed_take_bit 63 (uint c) \<le> uint c - 2 ^ Suc 63"
      by (rule signed_take_bit_int_less_eq)
    then have "sint c \<le> uint c - 2 ^ Suc 63" by (simp only: s)
    moreover have "uint c < 2 ^ 64" using uint_lt2p [of c] by simp
    ultimately have "sint c < 0" by simp
    with p show False by simp
  qed
  then have "int (unat c) < 2 ^ 63" by (simp only: uint_nat)
  then have "int (unat c) < int (2 ^ 63)" by simp
  then have u: "unat c < 2 ^ 63" by (simp only: of_nat_less_iff)
  then have e: "sint c = int (unat c)" by (rule sint_eq_unat)
  with p have "0 < int (unat c)" by (simp only:)
  then have "0 < unat c" by (simp only: of_nat_0_less_iff)
  with e u show ?thesis by (simp only: simp_thms)
qed

lemma FailLimited_iterate:
  assumes cap: "0 <s cap" and fresh: "failure b = 0" "limited b = 0"
  shows "failure ((FailLimited cap ^^ n) b) = word_of_nat (min n (unat cap))
       \<and> limited ((FailLimited cap ^^ n) b) = word_of_nat (n - unat cap)
       \<and> success ((FailLimited cap ^^ n) b) = success b"
proof (induction n)
  case 0
  with fresh show ?case by simp
next
  case (Suc n)
  define c where "c = unat cap"
  define bn where "bn = (FailLimited cap ^^ n) b"
  note u = sint_pos_unat [OF cap, folded c_def]
  have nz: "cap \<noteq> 0" using u by (auto simp add: c_def)
  have ih: "failure bn = word_of_nat (min n c)" "limited bn = word_of_nat (n - c)"
    "success bn = success b"
    using Suc.IH by (simp_all add: bn_def c_def)
  have "min n c \<le> c" by simp
  moreover have "c < 2 ^ 63" using u by simp
  ultimately have "min n c < 2 ^ 63" by (rule le_less_trans)
  then have "sint (failure bn) = int (min n c)"
    unfolding ih(1) by (rule sint_word_of_nat)
  then have below: "failure bn <s cap \<longleftrightarrow> n < c"
    using u by (auto simp add: word_sless_alt min_def)
  have next_b: "(FailLimited cap ^^ Suc n) b = FailLimited cap bn"
    by (simp add: bn_def)
  show ?case
  proof (cases "n < c")
    case True
    then have "FailLimited cap bn = bn\<lparr>failure := failure bn + 1\<rparr>"
      using below nz by (simp add: FailLimited_def)
    moreover have "min n c = n" "min (Suc n) c = Suc n" "n - c = 0" "Suc n - c = 0"
      using True by simp_all
    ultimately show ?thesis
      unfolding next_b using ih by (simp add: c_def [symmetric])
  next
    case False
    then have "FailLimited cap bn = bn\<lparr>limited := limited bn + 1\<rparr>"
      using below nz by (simp add: FailLimited_def)
    moreover have "min n c = c" "min (Suc n) c = c" "Suc n - c = Suc (n - c)"
      using False by simp_all
    ultimately show ?thesis
      unfolding next_b using ih by (simp add: c_def [symmetric])
  qed
qed

text \<open>
  C1: on the saturating bucket of the specification, with a cap above 0 and a bucket
  whose failure and limited-failure counters are 0, as after a reset: \<open>n\<close> failures
  leave the failure counter at the smaller of \<open>n\<close> and the cap and the limited-failure
  counter at the excess, so with more failures than the cap the failure counter is
  the cap exactly. Each call increments the failure counter when it is below the cap
  and the limited-failure counter otherwise; with a cap of 0 it is \<open>Fail\<close>.
\<close>

theorem FailLimited_saturates:
  assumes "0 <s cap" and "failure b = 0" and "limited b = 0"
  shows "failure ((FailLimited cap ^^ n) b) = word_of_nat (min n (unat cap))
       \<and> limited ((FailLimited cap ^^ n) b) = word_of_nat (n - unat cap)
       \<and> success ((FailLimited cap ^^ n) b) = success b
       \<and> (unat cap < n \<longrightarrow> failure ((FailLimited cap ^^ n) b) = cap)
       \<and> (\<forall>b'. FailLimited cap b' =
             (if failure b' <s cap then b'\<lparr>failure := failure b' + 1\<rparr>
              else b'\<lparr>limited := limited b' + 1\<rparr>))
       \<and> (\<forall>b'. FailLimited 0 b' = bucket_Fail b')"
proof -
  note it = FailLimited_iterate [OF assms, of n]
  have nz: "cap \<noteq> 0" using sint_pos_unat [OF assms(1)] by auto
  have "failure ((FailLimited cap ^^ n) b) = cap" if "unat cap < n"
    using it that by (simp add: min_def)
  moreover have "FailLimited cap b' =
             (if failure b' <s cap then b'\<lparr>failure := failure b' + 1\<rparr>
              else b'\<lparr>limited := limited b' + 1\<rparr>)" for b'
    using nz by (simp add: FailLimited_def)
  moreover have "FailLimited 0 b' = bucket_Fail b'" for b'
    by (simp add: FailLimited_def)
  ultimately show ?thesis using it by blast
qed

theorem FailLimited_saturates_witness:
  "(0::int64) <s 3
   \<and> failure ((FailLimited 3 ^^ 5) \<lparr>failure = 0, success = 0, limited = 0\<rparr>) = 3
   \<and> limited ((FailLimited 3 ^^ 5) \<lparr>failure = 0, success = 0, limited = 0\<rparr>) = 2"
proof -
  have h: "(0::int64) <s 3" by (simp add: word_sless_alt)
  from FailLimited_saturates [OF h, of "\<lparr>failure = 0, success = 0, limited = 0\<rparr>" 5]
  show ?thesis using h by simp
qed

end
